theory Spec2Isabelle
  imports Main
begin

section \<open>Python strings and the characters the program's patterns mention\<close>

text \<open>
  A Python \<open>str\<close> is a sequence of Unicode code points; a code point is a natural number.
  \<open>asc\<close> turns an ASCII literal into such a sequence. The seven logic symbols of the
  source are named by their code points.
\<close>

type_synonym pystr = "nat list"

definition asc :: "string \<Rightarrow> pystr" where
  "asc s = map of_char s"

abbreviation c_not :: nat where "c_not \<equiv> 172"     \<comment> \<open>U+00AC, negation\<close>
abbreviation c_and :: nat where "c_and \<equiv> 8743"    \<comment> \<open>U+2227, conjunction\<close>
abbreviation c_or :: nat where "c_or \<equiv> 8744"     \<comment> \<open>U+2228, disjunction\<close>
abbreviation c_imp :: nat where "c_imp \<equiv> 8658"    \<comment> \<open>U+21D2, implication\<close>
abbreviation c_iff :: nat where "c_iff \<equiv> 8660"    \<comment> \<open>U+21D4, biconditional\<close>
abbreviation c_all :: nat where "c_all \<equiv> 8704"    \<comment> \<open>U+2200, universal quantifier\<close>
abbreviation c_ex :: nat where "c_ex \<equiv> 8707"     \<comment> \<open>U+2203, existential quantifier\<close>
abbreviation c_nl :: nat where "c_nl \<equiv> 10"       \<comment> \<open>line feed\<close>
abbreviation c_sp :: nat where "c_sp \<equiv> 32"       \<comment> \<open>space\<close>
abbreviation c_bs :: nat where "c_bs \<equiv> 92"       \<comment> \<open>backslash\<close>

text \<open>
  \<open>\s\<close> of a \<open>str\<close> pattern: the Unicode whitespace characters.
\<close>

definition is_space :: "nat \<Rightarrow> bool" where
  "is_space c \<longleftrightarrow>
     (9 \<le> c \<and> c \<le> 13) \<or> (28 \<le> c \<and> c \<le> 32) \<or> c = 133 \<or> c = 160 \<or> c = 5760 \<or>
     (8192 \<le> c \<and> c \<le> 8202) \<or> c = 8232 \<or> c = 8233 \<or> c = 8239 \<or> c = 8287 \<or> c = 12288"

text \<open>
  \<open>\w\<close> of a \<open>str\<close> pattern: the underscore and every alphanumeric character. Up to
  U+00FF the alphanumerics are written out; from U+0100 on Python consults the Unicode
  database, which is taken as the parameter \<open>tbl\<close>.
\<close>

definition is_word :: "(nat \<Rightarrow> bool) \<Rightarrow> nat \<Rightarrow> bool" where
  "is_word tbl c \<longleftrightarrow>
     (if c < 256 then
        (48 \<le> c \<and> c \<le> 57) \<or> (65 \<le> c \<and> c \<le> 90) \<or> c = 95 \<or> (97 \<le> c \<and> c \<le> 122) \<or>
        c = 170 \<or> c = 178 \<or> c = 179 \<or> c = 181 \<or> c = 185 \<or> c = 186 \<or>
        (188 \<le> c \<and> c \<le> 190) \<or> (192 \<le> c \<and> c \<noteq> 215 \<and> c \<noteq> 247)
      else tbl c)"

text \<open>
  A table for text whose characters beyond U+00FF are all symbols (arrows, mathematical
  operators): none of them is alphanumeric.
\<close>

definition symbols_only :: "nat \<Rightarrow> bool" where
  "symbols_only c = False"

section \<open>The fragment of Python's \<open>re\<close> that the program uses\<close>

text \<open>
  A pattern is a sequence of items. The source's patterns are built from literal characters,
  the captured groups \<open>(.?)\<close>, \<open>(.*?)\<close> and \<open>(\<forall>|\<exists>)\<close>, \<open>\s\<close>, \<open>\b\<close> and \<open>$\<close>.
\<close>

datatype item =
    Ch nat                    \<comment> \<open>a literal character\<close>
  | G_opt                     \<comment> \<open>\<open>(.?)\<close>: greedy, at most one character other than line feed\<close>
  | G_lazy                    \<comment> \<open>\<open>(.*?)\<close>: lazy, any characters other than line feed\<close>
  | G_quant                   \<comment> \<open>\<open>(\<forall>|\<exists>)\<close>\<close>
  | Ws                        \<comment> \<open>\<open>\s\<close>\<close>
  | Wb "nat \<Rightarrow> bool"         \<comment> \<open>\<open>\b\<close>, with the table of \<open>is_word\<close>\<close>
  | Eol                       \<comment> \<open>\<open>$\<close>: the end, or just before a final line feed\<close>

definition lits :: "string \<Rightarrow> item list" where
  "lits s = map (\<lambda>c. Ch (of_char c)) s"

definition escape :: "pystr \<Rightarrow> item list" where
  \<comment> \<open>\<open>re.escape(s)\<close> used as a pattern: it matches \<open>s\<close> literally\<close>
  "escape s = map Ch s"

definition word_at :: "(nat \<Rightarrow> bool) \<Rightarrow> nat option \<Rightarrow> bool" where
  "word_at tbl c = (case c of None \<Rightarrow> False | Some x \<Rightarrow> is_word tbl x)"

text \<open>
  The backtracking matcher, anchored at the current position. \<open>prev\<close> is the character
  before the position (for \<open>\b\<close>), \<open>s\<close> the text from the position on, \<open>gs\<close> the groups
  captured so far. \<open>adv = Some n\<close> refuses a match that leaves \<open>n\<close> characters: the engine's
  must-advance flag after an empty match. The result is the groups and the text after the match.
  Alternatives are tried in the order of the engine: the greedy \<open>(.?)\<close> takes a character first,
  the lazy \<open>(.*?)\<close> takes as few as possible.
\<close>

fun rmatch :: "item list \<Rightarrow> nat option \<Rightarrow> nat option \<Rightarrow> pystr \<Rightarrow> pystr list
                \<Rightarrow> (pystr list \<times> pystr) option"
and rlazy :: "item list \<Rightarrow> nat option \<Rightarrow> nat option \<Rightarrow> pystr \<Rightarrow> pystr list \<Rightarrow> pystr
                \<Rightarrow> (pystr list \<times> pystr) option"
where
  "rmatch [] adv prev s gs = (if adv = Some (length s) then None else Some (gs, s))"
| "rmatch (Ch c # r) adv prev [] gs = None"
| "rmatch (Ch c # r) adv prev (x # xs) gs =
     (if x = c then rmatch r adv (Some x) xs gs else None)"
| "rmatch (Ws # r) adv prev [] gs = None"
| "rmatch (Ws # r) adv prev (x # xs) gs =
     (if is_space x then rmatch r adv (Some x) xs gs else None)"
| "rmatch (G_quant # r) adv prev [] gs = None"
| "rmatch (G_quant # r) adv prev (x # xs) gs =
     (if x = c_all \<or> x = c_ex then rmatch r adv (Some x) xs (gs @ [[x]]) else None)"
| "rmatch (G_opt # r) adv prev [] gs = rmatch r adv prev [] (gs @ [[]])"
| "rmatch (G_opt # r) adv prev (x # xs) gs =
     (if x = c_nl then rmatch r adv prev (x # xs) (gs @ [[]])
      else (case rmatch r adv (Some x) xs (gs @ [[x]]) of
              Some res \<Rightarrow> Some res
            | None \<Rightarrow> rmatch r adv prev (x # xs) (gs @ [[]])))"
| "rmatch (G_lazy # r) adv prev s gs = rlazy r adv prev s gs []"
| "rmatch (Wb tbl # r) adv prev s gs =
     (if word_at tbl prev \<noteq> word_at tbl (case s of [] \<Rightarrow> None | x # _ \<Rightarrow> Some x)
      then rmatch r adv prev s gs else None)"
| "rmatch (Eol # r) adv prev s gs =
     (if s = [] \<or> s = [c_nl] then rmatch r adv prev s gs else None)"
| "rlazy r adv prev [] gs acc = rmatch r adv prev [] (gs @ [acc])"
| "rlazy r adv prev (x # xs) gs acc =
     (case rmatch r adv prev (x # xs) (gs @ [acc]) of
        Some res \<Rightarrow> Some res
      | None \<Rightarrow> (if x = c_nl then None else rlazy r adv (Some x) xs gs (acc @ [x])))"

text \<open>A match consumes a prefix of the text, and a match that had to advance is not empty.\<close>

lemma rmatch_rest:
  "rmatch its adv prev s gs = Some (gs', rest) \<Longrightarrow>
     (\<exists>m. s = m @ rest) \<and> adv \<noteq> Some (length rest)"
  "rlazy its adv prev s gs acc = Some (gs', rest) \<Longrightarrow>
     (\<exists>m. s = m @ rest) \<and> adv \<noteq> Some (length rest)"
proof (induction its adv prev s gs and its adv prev s gs acc
       arbitrary: gs' rest and gs' rest rule: rmatch_rlazy.induct)
  case (3 c r adv prev x xs gs)
  then show ?case by (fastforce split: if_splits)
next
  case (5 r adv prev x xs gs)
  then show ?case by (fastforce split: if_splits)
next
  case (7 r adv prev x xs gs)
  then show ?case by (fastforce split: if_splits)
next
  case (9 r adv prev x xs gs)
  then show ?case by (fastforce split: if_splits option.splits)
next
  case (14 r adv prev x xs gs acc)
  then show ?case by (fastforce split: if_splits option.splits)
qed (auto split: if_splits)

lemma rmatch_length:
  assumes "rmatch its adv prev s gs = Some (gs', rest)"
  shows "length rest \<le> length s" and "adv = Some (length s) \<Longrightarrow> length rest < length s"
proof -
  from rmatch_rest(1) [OF assms] obtain m where m: "s = m @ rest" and a: "adv \<noteq> Some (length rest)"
    by blast
  show "length rest \<le> length s" using m by simp
  show "length rest < length s" if "adv = Some (length s)"
  proof -
    have "length rest \<noteq> length s" using a that by auto
    with m show ?thesis by (cases m) auto
  qed
qed

text \<open>
  The scan shared by \<open>re.sub\<close> and \<open>re.findall\<close>: the pattern is tried at every position
  from left to right; a match is handed to \<open>on_match\<close> (its groups, group 0 first) and the scan
  goes on after it; a character no match starts at is handed to \<open>on_char\<close>. After an empty
  match the next match at the same position has to advance.
\<close>

function re_scan :: "item list \<Rightarrow> (pystr list \<Rightarrow> 'a list) \<Rightarrow> (nat \<Rightarrow> 'a list) \<Rightarrow> bool \<Rightarrow> nat option
                       \<Rightarrow> pystr \<Rightarrow> 'a list" where
  "re_scan its on_match on_char must_advance prev s =
     (case rmatch its (if must_advance then Some (length s) else None) prev s [] of
        None \<Rightarrow>
          (case s of
             [] \<Rightarrow> []
           | c # cs \<Rightarrow> on_char c @ re_scan its on_match on_char False (Some c) cs)
      | Some (gs, rest) \<Rightarrow>
          (let whole = take (length s - length rest) s in
           on_match (whole # gs) @
           (if whole = [] then re_scan its on_match on_char True prev s
            else re_scan its on_match on_char False (Some (last whole)) rest)))"
  by pat_completeness auto
termination
proof (relation "measure (\<lambda>(its, on_match, on_char, must_advance, prev, s).
                   2 * length s + (if must_advance then 0 else 1))", goal_cases)
  case 1
  then show ?case by simp
next
  case (2 its on_match on_char must_advance prev s c cs)
  then show ?case by simp
next
  case (3 its on_match on_char must_advance prev s x gs rest whole)
  then show ?case
    using rmatch_length [of its "if must_advance then Some (length s) else None" prev s "[]" gs rest]
    by (auto split: if_splits)
next
  case (4 its on_match on_char must_advance prev s x gs rest whole)
  then show ?case
    using rmatch_length [of its "if must_advance then Some (length s) else None" prev s "[]" gs rest]
    by (auto split: if_splits)
qed

declare re_scan.simps [simp del]

text \<open>A replacement template: literal text and references \<open>\1\<close>, \<open>\2\<close>, ... to groups.\<close>

datatype piece = Lit pystr | Ref nat

fun expand :: "piece list \<Rightarrow> pystr list \<Rightarrow> pystr" where
  "expand [] gs = []"
| "expand (Lit t # ps) gs = t @ expand ps gs"
| "expand (Ref n # ps) gs = (gs ! n) @ expand ps gs"

definition re_sub :: "item list \<Rightarrow> piece list \<Rightarrow> pystr \<Rightarrow> pystr" where
  \<comment> \<open>\<open>re.sub(pattern, template, s)\<close>\<close>
  "re_sub its tmpl s = re_scan its (expand tmpl) (\<lambda>c. [c]) False None s"

definition re_sub_fn :: "item list \<Rightarrow> (pystr list \<Rightarrow> pystr) \<Rightarrow> pystr \<Rightarrow> pystr" where
  \<comment> \<open>\<open>re.sub(pattern, function, s)\<close>\<close>
  "re_sub_fn its f s = re_scan its f (\<lambda>c. [c]) False None s"

definition re_findall :: "item list \<Rightarrow> pystr \<Rightarrow> pystr list list" where
  \<comment> \<open>\<open>re.findall(pattern, s)\<close> for a pattern with groups: the groups of every match\<close>
  "re_findall its s = re_scan its (\<lambda>gs. [tl gs]) (\<lambda>c. []) False None s"

fun re_search_from :: "item list \<Rightarrow> nat option \<Rightarrow> pystr \<Rightarrow> pystr list option" where
  "re_search_from its prev [] =
     (case rmatch its None prev [] [] of
        None \<Rightarrow> None
      | Some (gs, rest) \<Rightarrow> Some ([] # gs))"
| "re_search_from its prev (c # cs) =
     (case rmatch its None prev (c # cs) [] of
        None \<Rightarrow> re_search_from its (Some c) cs
      | Some (gs, rest) \<Rightarrow> Some (take (length (c # cs) - length rest) (c # cs) # gs))"

definition re_search :: "item list \<Rightarrow> pystr \<Rightarrow> pystr list option" where
  \<comment> \<open>\<open>re.search(pattern, s)\<close>: the groups of the leftmost match, group 0 first\<close>
  "re_search its s = re_search_from its None s"

section \<open>The string methods the program uses\<close>

function str_replace :: "pystr \<Rightarrow> pystr \<Rightarrow> pystr \<Rightarrow> pystr" where
  \<comment> \<open>\<open>s.replace(old, new)\<close>: every occurrence from the left, none overlapping; an empty
      \<open>old\<close> matches before every character and at the end\<close>
  "str_replace old new s =
     (if old = [] then new @ concat (map (\<lambda>c. c # new) s)
      else if s = [] then []
      else if take (length old) s = old then new @ str_replace old new (drop (length old) s)
      else hd s # str_replace old new (tl s))"
  by pat_completeness auto
termination
  by (relation "measure (\<lambda>(old, new, s). length s)") auto

declare str_replace.simps [simp del]

function split_from :: "pystr \<Rightarrow> pystr \<Rightarrow> pystr \<Rightarrow> pystr list" where
  "split_from sep cur s =
     (if sep = [] \<or> s = [] then [cur @ s]
      else if take (length sep) s = sep then cur # split_from sep [] (drop (length sep) s)
      else split_from sep (cur @ [hd s]) (tl s))"
  by pat_completeness auto
termination
  by (relation "measure (\<lambda>(sep, cur, s). length s)") auto

declare split_from.simps [simp del]

definition str_split :: "pystr \<Rightarrow> pystr \<Rightarrow> pystr list" where
  \<comment> \<open>\<open>s.split(sep)\<close>; every separator of the program is a constant that is not empty\<close>
  "str_split s sep = split_from sep [] s"

fun str_join :: "pystr \<Rightarrow> pystr list \<Rightarrow> pystr" where
  \<comment> \<open>\<open>sep.join(xs)\<close>\<close>
  "str_join sep [] = []"
| "str_join sep [x] = x"
| "str_join sep (x # y # ys) = x @ sep @ str_join sep (y # ys)"

fun str_of_nat :: "nat \<Rightarrow> pystr" where
  \<comment> \<open>the decimal digits of an index, as an f-string prints it\<close>
  "str_of_nat n = (if n < 10 then [48 + n] else str_of_nat (n div 10) @ [48 + n mod 10])"

declare str_of_nat.simps [simp del]

section \<open>The normalization stages\<close>

datatype error =
    ReError        \<comment> \<open>\<open>re.error\<close>: a replacement template that ends in a backslash\<close>
  | IndexError     \<comment> \<open>\<open>pop\<close> from an empty list\<close>
  | TypeError      \<comment> \<open>hashing a \<open>set\<close>\<close>

text \<open>
  \<open>eliminate_implication\<close>: the pattern \<^verbatim>\<open>\((.?) \<Rightarrow> (.?)\)\<close> is replaced by
  \<^verbatim>\<open>(\<not>\1 \<or> \2)\<close>, then \<^verbatim>\<open>\((.?) \<Leftrightarrow> (.?)\)\<close> by
  \<^verbatim>\<open>(\<not>\1 \<or> \2) \<and> (\<not>\2 \<or> \1)\<close>.
\<close>

definition eliminate_implication :: "pystr \<Rightarrow> pystr" where
  "eliminate_implication formula =
     (let formula = re_sub (lits ''('' @ [G_opt] @ lits '' '' @ [Ch c_imp] @ lits '' '' @ [G_opt] @ lits '')'')
                      [Lit (asc ''('' @ [c_not]), Ref 1, Lit (asc '' '' @ [c_or] @ asc '' ''), Ref 2,
                       Lit (asc '')'')] formula;
          formula = re_sub (lits ''('' @ [G_opt] @ lits '' '' @ [Ch c_iff] @ lits '' '' @ [G_opt] @ lits '')'')
                      [Lit (asc ''('' @ [c_not]), Ref 1, Lit (asc '' '' @ [c_or] @ asc '' ''), Ref 2,
                       Lit (asc '') '' @ [c_and] @ asc '' ('' @ [c_not]), Ref 2,
                       Lit (asc '' '' @ [c_or] @ asc '' ''), Ref 1, Lit (asc '')'')] formula
      in formula)"

text \<open>
  \<open>move_negation_inward\<close>: five substitutions, each applied once, in this order:
  \<^verbatim>\<open>\<not>\((.?) \<and> (.?)\)\<close> by \<^verbatim>\<open>(\<not>\1 \<or> \<not>\2)\<close>,
  \<^verbatim>\<open>\<not>\((.?) \<or> (.?)\)\<close> by \<^verbatim>\<open>(\<not>\1 \<and> \<not>\2)\<close>,
  \<^verbatim>\<open>\<not>\<forall>(.?) (.?)\<close> by \<^verbatim>\<open>\<exists>\1 \<not>\2\<close>,
  \<^verbatim>\<open>\<not>\<exists>(.?) (.?)\<close> by \<^verbatim>\<open>\<forall>\1 \<not>\2\<close> and
  \<^verbatim>\<open>\<not>\<not>(.*?)\<close> by \<^verbatim>\<open>\1\<close>.
\<close>

definition move_negation_inward :: "pystr \<Rightarrow> pystr" where
  "move_negation_inward formula =
     (let formula = re_sub ([Ch c_not] @ lits ''('' @ [G_opt] @ lits '' '' @ [Ch c_and] @ lits '' '' @ [G_opt] @ lits '')'')
                      [Lit (asc ''('' @ [c_not]), Ref 1, Lit (asc '' '' @ [c_or] @ asc '' '' @ [c_not]), Ref 2,
                       Lit (asc '')'')] formula;
          formula = re_sub ([Ch c_not] @ lits ''('' @ [G_opt] @ lits '' '' @ [Ch c_or] @ lits '' '' @ [G_opt] @ lits '')'')
                      [Lit (asc ''('' @ [c_not]), Ref 1, Lit (asc '' '' @ [c_and] @ asc '' '' @ [c_not]), Ref 2,
                       Lit (asc '')'')] formula;
          formula = re_sub ([Ch c_not, Ch c_all, G_opt] @ lits '' '' @ [G_opt])
                      [Lit [c_ex], Ref 1, Lit (asc '' '' @ [c_not]), Ref 2] formula;
          formula = re_sub ([Ch c_not, Ch c_ex, G_opt] @ lits '' '' @ [G_opt])
                      [Lit [c_all], Ref 1, Lit (asc '' '' @ [c_not]), Ref 2] formula;
          formula = re_sub [Ch c_not, Ch c_not, G_lazy] [Ref 1] formula
      in formula)"

text \<open>
  \<open>standardize_variable_scope\<close>: the quantifiers are the matches of
  \<^verbatim>\<open>(\<forall>|\<exists>)(.?)\s(.?)\b\<close>; the second group of each is entered in the dictionary with
  itself as replacement; then every key \<open>var\<close> is substituted: the pattern
  \<^verbatim>\<open>\b\<close>, \<open>re.escape(var)\<close>, \<^verbatim>\<open>\b\<close> by its replacement.
\<close>

definition template_of :: "pystr \<Rightarrow> error + piece list" where
  \<comment> \<open>A string used as replacement template. The program passes a capture of \<open>(.?)\<close>: a text
      without a backslash stands for itself, and a lone backslash is a bad escape.\<close>
  "template_of r = (if c_bs \<in> set r then Inl ReError else Inr [Lit r])"

fun variable_map_of :: "pystr list list \<Rightarrow> (pystr \<times> pystr) list \<Rightarrow> (pystr \<times> pystr) list" where
  \<comment> \<open>the dictionary, in insertion order\<close>
  "variable_map_of [] m = m"
| "variable_map_of (q # qs) m =
     (let var = q ! 1 in
      if var \<notin> fst ` set m then variable_map_of qs (m @ [(var, var)]) else variable_map_of qs m)"

fun replace_variables :: "(nat \<Rightarrow> bool) \<Rightarrow> (pystr \<times> pystr) list \<Rightarrow> pystr \<Rightarrow> error + pystr" where
  "replace_variables tbl [] formula = Inr formula"
| "replace_variables tbl ((var, replacement) # m) formula =
     (case template_of replacement of
        Inl e \<Rightarrow> Inl e
      | Inr tmpl \<Rightarrow> replace_variables tbl m (re_sub ([Wb tbl] @ escape var @ [Wb tbl]) tmpl formula))"

definition standardize_variable_scope :: "(nat \<Rightarrow> bool) \<Rightarrow> pystr \<Rightarrow> error + pystr" where
  "standardize_variable_scope tbl formula =
     (let quantifiers = re_findall [G_quant, G_opt, Ws, G_opt, Wb tbl] formula;
          variable_map = variable_map_of quantifiers []
      in replace_variables tbl variable_map formula)"

text \<open>
  \<open>move_quantifiers_left\<close>: the quantifiers are the matches of \<^verbatim>\<open>(\<forall>|\<exists>)(.*?)\s\<close>;
  the text of each (quantifier, variable, blank) is deleted wherever it occurs, and the
  quantifiers, joined by blanks, are put in front with one more blank.
\<close>

definition move_quantifiers_left :: "pystr \<Rightarrow> pystr" where
  "move_quantifiers_left formula =
     (let quantifiers = re_findall [G_quant, G_lazy, Ws] formula;
          new_formula = foldl (\<lambda>f q. str_replace (q ! 0 @ q ! 1 @ asc '' '') [] f) formula quantifiers
      in str_join (asc '' '') (map (\<lambda>q. q ! 0 @ q ! 1) quantifiers) @ asc '' '' @ new_formula)"

text \<open>
  \<open>convert_to_cnf\<close>: \<^verbatim>\<open>(.?) \<or> \((.?) \<and> (.*?)\)\<close> is replaced by
  \<^verbatim>\<open>(\1 \<or> \2) \<and> (\1 \<or> \3)\<close>. Then, for every match of \<^verbatim>\<open>(\<forall>|\<exists>)(.*?)\s\<close>, the text
  quantifier, blank, variable is searched, followed by \<^verbatim>\<open>\s(.*?)$\<close>; when the group holds a
  disjunction sign, each of its parts between \<^verbatim>\<open> \<or> \<close> is renamed with the index of the part.
\<close>

fun rename_disjunctions :: "pystr \<Rightarrow> pystr \<Rightarrow> nat \<Rightarrow> pystr list \<Rightarrow> pystr \<Rightarrow> pystr" where
  \<comment> \<open>the loop over \<open>enumerate(disjunctions)\<close>\<close>
  "rename_disjunctions quantifier var i [] formula = formula"
| "rename_disjunctions quantifier var i (disjunct # ds) formula =
     rename_disjunctions quantifier var (Suc i) ds
       (if quantifier = [c_ex] then
          (let new_var = var @ asc ''_'' @ str_of_nat i in
           str_replace (quantifier @ var @ asc '' '' @ disjunct)
             ([c_ex] @ new_var @ asc '' '' @ str_replace var new_var disjunct) formula)
        else if quantifier = [c_all] then
          (let new_var = var @ asc ''_'' @ str_of_nat i in
           str_replace (quantifier @ var @ asc '' '' @ disjunct)
             ([c_all] @ new_var @ asc '' '' @ str_replace var new_var disjunct) formula)
        else formula)"

fun rename_quantified :: "pystr list list \<Rightarrow> pystr \<Rightarrow> pystr" where
  \<comment> \<open>the loop over \<open>quantified_vars\<close>\<close>
  "rename_quantified [] formula = formula"
| "rename_quantified (q # qs) formula =
     rename_quantified qs
       (let quantifier = q ! 0; var = q ! 1 in
        case re_search (escape (quantifier @ asc '' '' @ var) @ [Ws, G_lazy, Eol]) formula of
          None \<Rightarrow> formula
        | Some groups \<Rightarrow>
            (let subformula = groups ! 1 in
             if c_or \<in> set subformula
             then rename_disjunctions quantifier var 0
                    (str_split subformula (asc '' '' @ [c_or] @ asc '' '')) formula
             else formula))"

definition convert_to_cnf :: "pystr \<Rightarrow> pystr" where
  "convert_to_cnf formula =
     (let formula = re_sub ([G_opt] @ lits '' '' @ [Ch c_or] @ lits '' ('' @ [G_opt] @ lits '' '' @ [Ch c_and]
                              @ lits '' '' @ [G_lazy] @ lits '')'')
                      [Lit (asc ''(''), Ref 1, Lit (asc '' '' @ [c_or] @ asc '' ''), Ref 2,
                       Lit (asc '') '' @ [c_and] @ asc '' (''), Ref 1,
                       Lit (asc '' '' @ [c_or] @ asc '' ''), Ref 3, Lit (asc '')'')] formula;
          quantified_vars = re_findall [G_quant, G_lazy, Ws] formula
      in rename_quantified quantified_vars formula)"

text \<open>
  \<open>skolemization\<close>: the existentials are the matches of \<^verbatim>\<open>\<exists>(.?)\s(.?)\b\<close>, and the loop
  takes the second group of each as \<open>var\<close>. When \<open>var\<close> does not occur in the formula, the text
  \<open>\<exists>var\<close> is replaced by the next constant; otherwise every match of \<^verbatim>\<open>\<exists>(.*?)\s\<close>
  followed by \<open>re.escape(var)\<close> is deleted.
\<close>

fun skolemize_each :: "(nat \<Rightarrow> bool) \<Rightarrow> pystr list list \<Rightarrow> pystr list \<Rightarrow> pystr \<Rightarrow> error + pystr" where
  \<comment> \<open>the loop over \<open>existentials\<close>, with the list of constants that \<open>pop(0)\<close> shortens\<close>
  "skolemize_each tbl [] skolem_constants skolemized_formula = Inr skolemized_formula"
| "skolemize_each tbl (e # es) skolem_constants skolemized_formula =
     (let var = e ! 1 in
      if re_search (escape var) skolemized_formula = None then
        (case skolem_constants of
           [] \<Rightarrow> Inl IndexError
         | k # ks \<Rightarrow> skolemize_each tbl es ks (str_replace ([c_ex] @ var) k skolemized_formula))
      else skolemize_each tbl es skolem_constants
             (re_sub_fn ([Ch c_ex, G_lazy, Ws] @ escape var) (\<lambda>m. []) skolemized_formula))"

definition skolemization :: "(nat \<Rightarrow> bool) \<Rightarrow> pystr \<Rightarrow> error + pystr" where
  "skolemization tbl formula =
     (let skolem_constants = [asc ''A'', asc ''B'', asc ''C'', asc ''D'', asc ''E''];
          existentials = re_findall [Ch c_ex, G_opt, Ws, G_opt, Wb tbl] formula
      in skolemize_each tbl existentials skolem_constants formula)"

text \<open>
  \<open>eliminate_universal_quantifiers\<close>: \<^verbatim>\<open>\<forall>(.?)\s(.?)\<close> is replaced by \<^verbatim>\<open>\2\<close>.
\<close>

definition eliminate_universal_quantifiers :: "pystr \<Rightarrow> pystr" where
  "eliminate_universal_quantifiers formula = re_sub [Ch c_all, G_opt, Ws, G_opt] [Ref 2] formula"

section \<open>Clauses and the resolution procedure\<close>

text \<open>
  A clause is a Python \<open>set\<close> of literals, and a literal is a string. The model writes a set
  as the list of its elements without duplicates, in one order of iteration (Python's order
  depends on the hashes of the strings). Two such lists are the same set when they have the
  same elements.
\<close>

type_synonym clause = "pystr list"

definition set_of_list :: "pystr list \<Rightarrow> clause" where
  \<comment> \<open>\<open>set(xs)\<close>\<close>
  "set_of_list xs = remdups xs"

definition set_union :: "clause \<Rightarrow> clause \<Rightarrow> clause" where
  \<comment> \<open>\<open>a | b\<close>\<close>
  "set_union a b = a @ filter (\<lambda>x. x \<notin> set a) b"

definition set_minus :: "clause \<Rightarrow> clause \<Rightarrow> clause" where
  \<comment> \<open>\<open>a - b\<close>\<close>
  "set_minus a b = filter (\<lambda>x. x \<notin> set b) a"

definition clauses_from_formula :: "pystr \<Rightarrow> clause list" where
  "clauses_from_formula formula =
     (let conjunctions = str_split formula [c_and]
      in map (\<lambda>conj. set_of_list (str_split conj [c_or])) conjunctions)"

definition resolve :: "clause \<Rightarrow> clause \<Rightarrow> clause list" where
  "resolve clause_i clause_j =
     concat (map (\<lambda>literal_i.
       concat (map (\<lambda>literal_j.
         if literal_i = c_not # literal_j \<or> c_not # literal_i = literal_j
         then [set_minus (set_union clause_i clause_j) (set_of_list [literal_i, literal_j])]
         else []) clause_j)) clause_i)"

definition combinations2 :: "nat \<Rightarrow> (nat \<times> nat) list" where
  \<comment> \<open>\<open>combinations(range(n), 2)\<close>\<close>
  "combinations2 n = concat (map (\<lambda>i. map (\<lambda>j. (i, j)) [Suc i..<n]) [0..<n])"

definition set_update :: "clause list \<Rightarrow> clause list \<Rightarrow> error + clause list" where
  \<comment> \<open>\<open>new_clauses.update(resolvents)\<close>: every element added is hashed, and the resolvents are
      of the type \<open>set\<close>, which has no hash\<close>
  "set_update new_clauses resolvents = (if resolvents = [] then Inr new_clauses else Inl TypeError)"

datatype sweep = Raised error | Returned bool | Finished "clause list"

fun sweep_pairs :: "clause list \<Rightarrow> (nat \<times> nat) list \<Rightarrow> clause list \<Rightarrow> sweep" where
  \<comment> \<open>the \<open>for\<close> loop over the pairs of one iteration\<close>
  "sweep_pairs clauses [] new_clauses = Finished new_clauses"
| "sweep_pairs clauses ((i, j) # ps) new_clauses =
     (let clause_i = clauses ! i;
          clause_j = clauses ! j;
          resolvents = resolve clause_i clause_j
      in if [] \<in> set resolvents then Returned True
         else (case set_update new_clauses resolvents of
                 Inl e \<Rightarrow> Raised e
               | Inr new_clauses' \<Rightarrow> sweep_pairs clauses ps new_clauses'))"

partial_function (option) resolution_loop :: "clause list \<Rightarrow> (error + bool) option" where
  \<comment> \<open>the \<open>while True\<close> loop; \<open>None\<close> is a loop that never ends\<close>
  "resolution_loop clauses =
     (case sweep_pairs clauses (combinations2 (length clauses)) [] of
        Raised e \<Rightarrow> Some (Inl e)
      | Returned b \<Rightarrow> Some (Inr b)
      | Finished new_clauses \<Rightarrow>
          if list_all (\<lambda>clause. list_all (\<lambda>new_clause. set new_clause \<subseteq> set clause) new_clauses) clauses
          then Some (Inr False)
          else resolution_loop
                 (filter (\<lambda>clause. \<not> list_ex (\<lambda>new_clause. set new_clause = set clause) new_clauses)
                    (clauses @ new_clauses)))"

declare resolution_loop.simps [code]

definition cnf_in_resolution :: "(nat \<Rightarrow> bool) \<Rightarrow> pystr \<Rightarrow> error + pystr" where
  \<comment> \<open>the stages as the loop of \<open>resolution\<close> applies them to one proposition\<close>
  "cnf_in_resolution tbl prop =
     (let prop = eliminate_implication prop;
          prop = move_negation_inward prop
      in case standardize_variable_scope tbl prop of
           Inl e \<Rightarrow> Inl e
         | Inr prop \<Rightarrow>
             (case skolemization tbl prop of
                Inl e \<Rightarrow> Inl e
              | Inr prop \<Rightarrow>
                  (let prop = move_quantifiers_left prop;
                       prop = eliminate_universal_quantifiers prop
                   in Inr (convert_to_cnf prop))))"

fun clauses_of :: "(nat \<Rightarrow> bool) \<Rightarrow> pystr list \<Rightarrow> clause list \<Rightarrow> error + clause list" where
  \<comment> \<open>the first loop of \<open>resolution\<close>\<close>
  "clauses_of tbl [] clauses = Inr clauses"
| "clauses_of tbl (prop # props) clauses =
     (case cnf_in_resolution tbl prop of
        Inl e \<Rightarrow> Inl e
      | Inr prop' \<Rightarrow> clauses_of tbl props (clauses @ clauses_from_formula prop'))"

definition resolution :: "(nat \<Rightarrow> bool) \<Rightarrow> pystr list \<Rightarrow> (error + bool) option" where
  "resolution tbl propositions =
     (case clauses_of tbl propositions [] of
        Inl e \<Rightarrow> Some (Inl e)
      | Inr clauses \<Rightarrow> resolution_loop clauses)"

definition cnf_in_print :: "(nat \<Rightarrow> bool) \<Rightarrow> pystr \<Rightarrow> error + pystr" where
  \<comment> \<open>the stages as the loop of \<open>print_propositions_in_cnf\<close> applies them to one proposition\<close>
  "cnf_in_print tbl prop =
     (let prop = eliminate_implication prop;
          prop = move_negation_inward prop;
          prop = move_quantifiers_left prop
      in case standardize_variable_scope tbl prop of
           Inl e \<Rightarrow> Inl e
         | Inr prop \<Rightarrow>
             (case skolemization tbl prop of
                Inl e \<Rightarrow> Inl e
              | Inr prop \<Rightarrow>
                  (let prop = eliminate_universal_quantifiers prop
                   in Inr (convert_to_cnf prop))))"

fun print_each :: "(nat \<Rightarrow> bool) \<Rightarrow> pystr list \<Rightarrow> pystr list \<Rightarrow> pystr list \<times> error option" where
  "print_each tbl [] printed = (printed, None)"
| "print_each tbl (prop # props) printed =
     (case cnf_in_print tbl prop of
        Inl e \<Rightarrow> (printed, Some e)
      | Inr prop_cnf \<Rightarrow> print_each tbl props (printed @ [prop_cnf]))"

definition print_propositions_in_cnf :: "(nat \<Rightarrow> bool) \<Rightarrow> pystr list \<Rightarrow> pystr list \<times> error option" where
  \<comment> \<open>the lines printed, and the exception that ended the printing, if any\<close>
  "print_propositions_in_cnf tbl propositions =
     print_each tbl propositions [asc ''Propositions in CNF:'']"

text \<open>
  What a set of clauses says: a literal that starts with the negation sign is the negation
  of the rest, as \<open>resolve\<close> reads it; a clause holds when one of its literals does.
\<close>

fun literal_holds :: "(pystr \<Rightarrow> bool) \<Rightarrow> pystr \<Rightarrow> bool" where
  "literal_holds v [] = v []"
| "literal_holds v (c # cs) = (if c = c_not then \<not> literal_holds v cs else v (c # cs))"

definition clause_holds :: "(pystr \<Rightarrow> bool) \<Rightarrow> clause \<Rightarrow> bool" where
  "clause_holds v cl = list_ex (literal_holds v) cl"

definition satisfies :: "(pystr \<Rightarrow> bool) \<Rightarrow> clause list \<Rightarrow> bool" where
  "satisfies v cls = list_all (clause_holds v) cls"

section \<open>The substitutions of \<open>eliminate_implication\<close> without the pattern engine\<close>

text \<open>
  What the two substitutions do, said on the text alone. An occurrence of the connective
  \<open>c\<close> is the text \<open>(p c q)\<close>, with a blank on each side of \<open>c\<close>, whose operands \<open>p\<close> and
  \<open>q\<close> are at most one character each, none of them a line feed. At a position the longer
  operand is preferred, the first operand before the second.
\<close>

definition occurrence :: "nat \<Rightarrow> pystr \<Rightarrow> pystr \<Rightarrow> pystr" where
  "occurrence c p q = asc ''('' @ p @ [c_sp, c, c_sp] @ q @ asc '')''"

definition occurrence_at :: "nat \<Rightarrow> pystr \<Rightarrow> (pystr \<times> pystr) option" where
  "occurrence_at c s =
     (let p = take 1 (drop 1 s) in
      find (\<lambda>(p, q). c_nl \<notin> set p \<and> c_nl \<notin> set q
                      \<and> take (length (occurrence c p q)) s = occurrence c p q)
        [(p, take 1 (drop (4 + length p) s)), (p, []), ([], take 1 (drop 4 s)), ([], [])])"

text \<open>
  A string is read from left to right: where an occurrence starts it is taken and the reading
  goes on after it; any other character is kept.
\<close>

datatype segment = Kept nat | Occurrence pystr pystr

function segments :: "nat \<Rightarrow> pystr \<Rightarrow> segment list" where
  "segments c s =
     (if s = [] then []
      else case occurrence_at c s of
             None \<Rightarrow> Kept (hd s) # segments c (tl s)
           | Some (p, q) \<Rightarrow> Occurrence p q # segments c (drop (length (occurrence c p q)) s))"
  by pat_completeness auto
termination
  by (relation "measure (\<lambda>(c, s). length s)") (auto simp: occurrence_def asc_def)

declare segments.simps [simp del]

fun render :: "(pystr \<Rightarrow> pystr \<Rightarrow> pystr) \<Rightarrow> segment \<Rightarrow> pystr" where
  "render f (Kept x) = [x]"
| "render f (Occurrence p q) = f p q"

definition rewrite_each :: "nat \<Rightarrow> (pystr \<Rightarrow> pystr \<Rightarrow> pystr) \<Rightarrow> pystr \<Rightarrow> pystr" where
  "rewrite_each c f s = concat (map (render f) (segments c s))"

text \<open>
  \<open>(\<not>p \<or> q)\<close>, the replacement for an implication, and \<open>(\<not>p \<or> q) \<and> (\<not>q \<or> p)\<close>, the
  replacement for a biconditional.
\<close>

definition disjunction_text :: "pystr \<Rightarrow> pystr \<Rightarrow> pystr" where
  "disjunction_text p q = asc ''('' @ [c_not] @ p @ [c_sp, c_or, c_sp] @ q @ asc '')''"

definition conjunction_text :: "pystr \<Rightarrow> pystr \<Rightarrow> pystr" where
  "conjunction_text p q = disjunction_text p q @ [c_sp, c_and, c_sp] @ disjunction_text q p"

text \<open>A sign is left in a segment when it is the kept character or one of the operands.\<close>

fun mentions :: "nat \<Rightarrow> segment \<Rightarrow> bool" where
  "mentions c (Kept x) = (x = c)"
| "mentions c (Occurrence p q) = (c \<in> set p \<or> c \<in> set q)"

section \<open>Predicates for the statements about the stages\<close>

text \<open>
  Every pattern of \<open>move_negation_inward\<close> starts with a negation sign followed by an opening
  parenthesis, a quantifier or another negation sign. A string without such a pair is settled.
\<close>

fun has_pair :: "nat \<Rightarrow> nat \<Rightarrow> pystr \<Rightarrow> bool" where
  "has_pair a b (x # y # zs) = ((x = a \<and> y = b) \<or> has_pair a b (y # zs))"
| "has_pair a b [x] = False"
| "has_pair a b [] = False"


text \<open>
  A formula without a quantifier sign passes the quantifier stages unchanged, but for the
  blank that \<open>move_quantifiers_left\<close> puts in front.
\<close>

definition quantifier_free :: "pystr \<Rightarrow> bool" where
  "quantifier_free s \<longleftrightarrow> c_all \<notin> set s \<and> c_ex \<notin> set s"

fun ngroups :: "item list \<Rightarrow> nat" where
  "ngroups [] = 0"
| "ngroups (G_opt # r) = Suc (ngroups r)"
| "ngroups (G_lazy # r) = Suc (ngroups r)"
| "ngroups (G_quant # r) = Suc (ngroups r)"
| "ngroups (i # r) = ngroups r"

fun piece_within :: "nat set \<Rightarrow> nat \<Rightarrow> piece \<Rightarrow> bool" where
  "piece_within A n (Lit t) = (set t \<subseteq> A)"
| "piece_within A n (Ref k) = (k \<le> n)"

definition captures_backslash :: "(nat \<Rightarrow> bool) \<Rightarrow> pystr \<Rightarrow> bool" where
  \<comment> \<open>a match of the pattern of \<open>standardize_variable_scope\<close> takes a backslash as the variable\<close>
  "captures_backslash tbl s \<longleftrightarrow>
     list_ex (\<lambda>q. c_bs \<in> set (q ! 1)) (re_findall [G_quant, G_opt, Ws, G_opt, Wb tbl] s)"

section \<open>Evaluation and the first iteration of the loop\<close>

lemmas re_eval = re_sub_def re_sub_fn_def re_findall_def re_search_def re_scan.simps lits_def asc_def
  escape_def Let_def is_space_def is_word_def word_at_def symbols_only_def

lemmas str_eval = str_replace.simps split_from.simps str_split_def str_of_nat.simps

lemmas stage_eval = eliminate_implication_def move_negation_inward_def template_of_def
  standardize_variable_scope_def move_quantifiers_left_def convert_to_cnf_def skolemization_def
  eliminate_universal_quantifiers_def

lemmas clause_eval = set_of_list_def set_union_def set_minus_def clauses_from_formula_def resolve_def
  combinations2_def set_update_def

text \<open>
  \<open>new_clauses\<close> never receives a clause: \<open>update\<close> raises as soon as a pair has a resolvent.
  So the loop ends in its first iteration.
\<close>

lemma sweep_pairs_keeps:
  "sweep_pairs clauses ps new_clauses = Finished new_clauses' \<Longrightarrow> new_clauses' = new_clauses"
  by (induction ps arbitrary: new_clauses)
     (auto simp: Let_def set_update_def split: if_splits sum.splits)

lemma resolution_loop_first_sweep:
  "resolution_loop clauses =
     Some (case sweep_pairs clauses (combinations2 (length clauses)) [] of
             Raised e \<Rightarrow> Inl e
           | Returned b \<Rightarrow> Inr b
           | Finished new_clauses \<Rightarrow> Inr False)"
proof (cases "sweep_pairs clauses (combinations2 (length clauses)) []")
  case (Raised e)
  then show ?thesis by (subst resolution_loop.simps) simp
next
  case (Returned b)
  then show ?thesis by (subst resolution_loop.simps) simp
next
  case (Finished new_clauses)
  then have "new_clauses = []" by (rule sweep_pairs_keeps)
  with Finished show ?thesis by (subst resolution_loop.simps) (simp add: list_all_iff)
qed

section \<open>The resolution procedure on concrete knowledge bases\<close>

text \<open>
  C1 (soundness of the resolution engine). The knowledge base with the one proposition
  \<open>x\<and>p\<or>\<not>p\<and>p\<close> gives the clauses \<open>{ x}\<close>, \<open>{p, \<not>p}\<close> and \<open>{p}\<close>. The valuation that makes
  every atom true satisfies them, and \<open>resolution\<close> returns \<open>True\<close>, its verdict for a
  contradiction: \<open>resolve\<close> takes both resolved literals out of the union of the two clauses.
\<close>

theorem resolution_true_on_satisfiable:
  "clauses_of symbols_only
     [asc ''x'' @ [c_and] @ asc ''p'' @ [c_or, c_not] @ asc ''p'' @ [c_and] @ asc ''p''] []
     = Inr [[asc '' x''], [asc ''p'', c_not # asc ''p''], [asc ''p'']]
   \<and> satisfies (\<lambda>l. True) [[asc '' x''], [asc ''p'', c_not # asc ''p''], [asc ''p'']]
   \<and> resolution symbols_only
         [asc ''x'' @ [c_and] @ asc ''p'' @ [c_or, c_not] @ asc ''p'' @ [c_and] @ asc ''p'']
       = Some (Inr True)"
proof -
  have cl: "clauses_of symbols_only
      [asc ''x'' @ [c_and] @ asc ''p'' @ [c_or, c_not] @ asc ''p'' @ [c_and] @ asc ''p''] []
      = Inr [[asc '' x''], [asc ''p'', c_not # asc ''p''], [asc ''p'']]"
    by (simp add: cnf_in_resolution_def stage_eval re_eval str_eval clause_eval)
  have sat: "satisfies (\<lambda>l. True) [[asc '' x''], [asc ''p'', c_not # asc ''p''], [asc ''p'']]"
    by (simp add: satisfies_def clause_holds_def asc_def)
  have loop: "resolution_loop [[asc '' x''], [asc ''p'', c_not # asc ''p''], [asc ''p'']]
      = Some (Inr True)"
    by (simp add: resolution_loop_first_sweep clause_eval asc_def Let_def)
  show ?thesis using cl sat loop by (simp add: resolution_def)
qed

text \<open>
  C2 (the resolvent). For the clauses \<open>{p, \<not>p}\<close> and \<open>{p}\<close>, resolved on \<open>\<not>p\<close> of the first and
  \<open>p\<close> of the second, \<open>resolve\<close> returns the empty clause, while the first clause without
  \<open>\<not>p\<close> united with the second without \<open>p\<close> is \<open>{p}\<close>.
\<close>

theorem resolve_loses_shared_literal:
  "resolve [asc ''p'', c_not # asc ''p''] [asc ''p''] = [[]]
   \<and> set_union (set_minus [asc ''p'', c_not # asc ''p''] [c_not # asc ''p''])
         (set_minus [asc ''p''] [asc ''p'']) = [asc ''p'']"
  by (simp add: clause_eval asc_def)

text \<open>
  C3 (saturation). The proposition \<open>a\<and>p\<or>q\<and>\<not>p\<or>r\<and>q\<or>r\<close> gives the clauses \<open>{ a}\<close>, \<open>{p, q}\<close>,
  \<open>{\<not>p, r}\<close> and \<open>{q, r}\<close>. The only resolvent, \<open>{q, r}\<close>, is already one of them, so the
  iteration produces no new clause; \<open>resolution\<close> raises \<open>TypeError\<close> there instead of
  returning \<open>False\<close>. On \<open>P(a)\<close> and \<open>Q(a)\<close>, where no pair resolves, it returns \<open>False\<close>.
\<close>

theorem resolution_raises_on_known_resolvent:
  "clauses_of symbols_only
     [asc ''a'' @ [c_and] @ asc ''p'' @ [c_or] @ asc ''q'' @ [c_and, c_not] @ asc ''p'' @ [c_or]
        @ asc ''r'' @ [c_and] @ asc ''q'' @ [c_or] @ asc ''r''] []
     = Inr [[asc '' a''], [asc ''p'', asc ''q''], [c_not # asc ''p'', asc ''r''], [asc ''q'', asc ''r'']]
   \<and> resolve [asc ''p'', asc ''q''] [c_not # asc ''p'', asc ''r''] = [[asc ''q'', asc ''r'']]
   \<and> resolution symbols_only
         [asc ''a'' @ [c_and] @ asc ''p'' @ [c_or] @ asc ''q'' @ [c_and, c_not] @ asc ''p'' @ [c_or]
            @ asc ''r'' @ [c_and] @ asc ''q'' @ [c_or] @ asc ''r'']
       = Some (Inl TypeError)
   \<and> resolution symbols_only [asc ''P(a)'', asc ''Q(a)''] = Some (Inr False)"
proof -
  have cl: "clauses_of symbols_only
     [asc ''a'' @ [c_and] @ asc ''p'' @ [c_or] @ asc ''q'' @ [c_and, c_not] @ asc ''p'' @ [c_or]
        @ asc ''r'' @ [c_and] @ asc ''q'' @ [c_or] @ asc ''r''] []
     = Inr [[asc '' a''], [asc ''p'', asc ''q''], [c_not # asc ''p'', asc ''r''], [asc ''q'', asc ''r'']]"
    by (simp add: cnf_in_resolution_def stage_eval re_eval str_eval clause_eval)
  have res: "resolve [asc ''p'', asc ''q''] [c_not # asc ''p'', asc ''r''] = [[asc ''q'', asc ''r'']]"
    by (simp add: clause_eval asc_def)
  have loop: "resolution_loop
      [[asc '' a''], [asc ''p'', asc ''q''], [c_not # asc ''p'', asc ''r''], [asc ''q'', asc ''r'']]
      = Some (Inl TypeError)"
    by (simp add: resolution_loop_first_sweep clause_eval asc_def Let_def)
  have cl2: "clauses_of symbols_only [asc ''P(a)'', asc ''Q(a)''] []
      = Inr [[asc '' P(a)''], [asc '' Q(a)'']]"
    by (simp add: cnf_in_resolution_def stage_eval re_eval str_eval clause_eval)
  have loop2: "resolution_loop [[asc '' P(a)''], [asc '' Q(a)'']] = Some (Inr False)"
    by (simp add: resolution_loop_first_sweep clause_eval asc_def Let_def)
  show ?thesis using cl res loop cl2 loop2 by (simp add: resolution_def)
qed

section \<open>The stages on concrete formulas\<close>

text \<open>
  C4 (skolemization). On \<open>\<forall>x \<exists>y P(y)\<close> the stage returns \<open>\<forall>x (y)\<close>: the quantifier and the
  predicate symbol are deleted, the variable \<open>y\<close> stays, and no Skolem term over \<open>x\<close> appears.
  On the example of the source's comment, \<open>\<exists>y P(A) \<or> Q(y)\<close>, it returns \<open>(A) \<or> Q(y)\<close>.
\<close>

theorem skolemization_deletes_predicate:
  "skolemization symbols_only ([c_all] @ asc ''x '' @ [c_ex] @ asc ''y P(y)'')
     = Inr ([c_all] @ asc ''x (y)'')
   \<and> skolemization symbols_only ([c_ex] @ asc ''y P(A) '' @ [c_or] @ asc '' Q(y)'')
     = Inr (asc ''(A) '' @ [c_or] @ asc '' Q(y)'')"
  by (simp add: stage_eval re_eval str_eval)

text \<open>
  C5 (standardizing variables apart). On \<open>(\<forall>x P(x)) \<or> (\<exists>x Q(x))\<close> the stage returns its input:
  both quantifiers still bind \<open>x\<close>.
\<close>

theorem standardize_keeps_colliding_names:
  "standardize_variable_scope symbols_only
     (asc ''('' @ [c_all] @ asc ''x P(x)) '' @ [c_or] @ asc '' ('' @ [c_ex] @ asc ''x Q(x))'')
   = Inr (asc ''('' @ [c_all] @ asc ''x P(x)) '' @ [c_or] @ asc '' ('' @ [c_ex] @ asc ''x Q(x))'')"
  by (simp add: stage_eval re_eval str_eval)

section \<open>Eliminating implications\<close>

text \<open>
  At every position the pattern of a substitution matches exactly when an occurrence starts
  there, with the operands as its groups; so the substitution is the reading above, with each
  occurrence replaced.
\<close>

lemma pystr_cases7:
  obtains "s = []" | a where "s = [a]" | a b where "s = [a, b]" | a b c where "s = [a, b, c]"
    | a b c d where "s = [a, b, c, d]" | a b c d e where "s = [a, b, c, d, e]"
    | a b c d e f where "s = [a, b, c, d, e, f]"
    | a b c d e f g r where "s = a # b # c # d # e # f # g # r"
proof (cases s)
  case Nil then show ?thesis by (rule that(1))
next
  case s1: (Cons a s1)
  show ?thesis
  proof (cases s1)
    case Nil with s1 show ?thesis by (intro that(2)) simp
  next
    case s2: (Cons b s2)
    show ?thesis
    proof (cases s2)
      case Nil with s1 s2 show ?thesis by (intro that(3)) simp
    next
      case s3: (Cons c s3)
      show ?thesis
      proof (cases s3)
        case Nil with s1 s2 s3 show ?thesis by (intro that(4)) simp
      next
        case s4: (Cons d s4)
        show ?thesis
        proof (cases s4)
          case Nil with s1 s2 s3 s4 show ?thesis by (intro that(5)) simp
        next
          case s5: (Cons e s5)
          show ?thesis
          proof (cases s5)
            case Nil with s1 s2 s3 s4 s5 show ?thesis by (intro that(6)) simp
          next
            case s6: (Cons f s6)
            show ?thesis
            proof (cases s6)
              case Nil with s1 s2 s3 s4 s5 s6 show ?thesis by (intro that(7)) simp
            next
              case s7: (Cons g s7)
              with s1 s2 s3 s4 s5 s6 show ?thesis by (intro that(8)) simp
            qed
          qed
        qed
      qed
    qed
  qed
qed

lemma rmatch_occurrence:
  "rmatch [Ch 40, G_opt, Ch 32, Ch c, Ch 32, G_opt, Ch 41] None prev s [] =
     (case occurrence_at c s of
        None \<Rightarrow> None
      | Some (p, q) \<Rightarrow> Some ([p, q], drop (length (occurrence c p q)) s))"
proof (cases s rule: pystr_cases7)
  case 1 then show ?thesis by (simp add: occurrence_at_def occurrence_def asc_def)
next
  case 2 then show ?thesis by (simp add: occurrence_at_def occurrence_def asc_def)
next
  case 3 then show ?thesis by (simp add: occurrence_at_def occurrence_def asc_def)
next
  case 4 then show ?thesis by (simp add: occurrence_at_def occurrence_def asc_def)
next
  case 5 then show ?thesis by (simp add: occurrence_at_def occurrence_def asc_def)
next
  case 6 then show ?thesis by (auto simp add: occurrence_at_def occurrence_def asc_def)
next
  case 7 then show ?thesis by (auto simp add: occurrence_at_def occurrence_def asc_def)
next
  case 8 then show ?thesis by (auto simp add: occurrence_at_def occurrence_def asc_def)
qed

lemma occurrence_at_prefix:
  assumes "occurrence_at c s = Some (p, q)"
  shows "s = occurrence c p q @ drop (length (occurrence c p q)) s"
proof -
  from assms have "take (length (occurrence c p q)) s = occurrence c p q"
    by (simp add: occurrence_at_def Let_def split: if_splits)
  then show ?thesis by (metis append_take_drop_id)
qed

lemma re_scan_occurrences:
  assumes "\<And>w p q. on_match [w, p, q] = f p q"
  shows "re_scan [Ch 40, G_opt, Ch 32, Ch c, Ch 32, G_opt, Ch 41] on_match (\<lambda>x. [x]) False prev s
           = concat (map (render f) (segments c s))"
proof (induction c s arbitrary: prev rule: segments.induct)
  case (1 c s)
  show ?case
  proof (cases "s = []")
    case True
    then show ?thesis
      by (subst re_scan.simps, subst segments.simps) simp
  next
    case ne: False
    show ?thesis
    proof (cases "occurrence_at c s")
      case None
      have m: "rmatch [Ch 40, G_opt, Ch 32, Ch c, Ch 32, G_opt, Ch 41] None prev s [] = None"
        using None by (simp add: rmatch_occurrence)
      have "re_scan [Ch 40, G_opt, Ch 32, Ch c, Ch 32, G_opt, Ch 41] on_match (\<lambda>x. [x]) False
              (Some (hd s)) (tl s) = concat (map (render f) (segments c (tl s)))"
        using "1.IH"(1) [OF ne None] by simp
      with None ne m show ?thesis
        by (subst re_scan.simps, subst segments.simps) (simp add: list.case_eq_if)
    next
      case (Some pq)
      obtain p q where pq: "pq = (p, q)" by (cases pq)
      define rest where "rest = drop (length (occurrence c p q)) s"
      from occurrence_at_prefix Some pq have s: "s = occurrence c p q @ rest"
        unfolding rest_def by blast
      have w: "take (length s - length rest) s = occurrence c p q"
        by (subst (2) s, subst s) simp
      have o: "occurrence c p q \<noteq> []" by (simp add: occurrence_def asc_def)
      have lt: "\<not> length s \<le> length rest"
        using o by (subst s) simp
      have ih: "re_scan [Ch 40, G_opt, Ch 32, Ch c, Ch 32, G_opt, Ch 41] on_match (\<lambda>x. [x]) False
              (Some (last (occurrence c p q))) rest = concat (map (render f) (segments c rest))"
        using "1.IH"(2) [OF ne Some pq [symmetric]] rest_def by simp
      have m: "rmatch [Ch 40, G_opt, Ch 32, Ch c, Ch 32, G_opt, Ch 41] None prev s []
                 = Some ([p, q], rest)"
        using Some pq by (simp add: rmatch_occurrence rest_def)
      from Some pq w o assms ne m ih lt show ?thesis
        by (subst re_scan.simps, subst segments.simps) (simp add: rest_def [symmetric])
    qed
  qed
qed

lemma re_sub_implication:
  "re_sub (lits ''('' @ [G_opt] @ lits '' '' @ [Ch c_imp] @ lits '' '' @ [G_opt] @ lits '')'')
     [Lit (asc ''('' @ [c_not]), Ref 1, Lit (asc '' '' @ [c_or] @ asc '' ''), Ref 2,
      Lit (asc '')'')] s
   = rewrite_each c_imp disjunction_text s"
  unfolding re_sub_def rewrite_each_def lits_def
  by (simp, rule re_scan_occurrences) (simp add: disjunction_text_def asc_def)

lemma re_sub_biconditional:
  "re_sub (lits ''('' @ [G_opt] @ lits '' '' @ [Ch c_iff] @ lits '' '' @ [G_opt] @ lits '')'')
     [Lit (asc ''('' @ [c_not]), Ref 1, Lit (asc '' '' @ [c_or] @ asc '' ''), Ref 2,
      Lit (asc '') '' @ [c_and] @ asc '' ('' @ [c_not]), Ref 2,
      Lit (asc '' '' @ [c_or] @ asc '' ''), Ref 1, Lit (asc '')'')] s
   = rewrite_each c_iff conjunction_text s"
  unfolding re_sub_def rewrite_each_def lits_def
  by (simp, rule re_scan_occurrences)
     (simp add: conjunction_text_def disjunction_text_def asc_def)

lemma eliminate_implication_rewrite:
  "eliminate_implication s
     = rewrite_each c_iff conjunction_text (rewrite_each c_imp disjunction_text s)"
  unfolding eliminate_implication_def Let_def re_sub_implication re_sub_biconditional ..

lemma segments_occurrences:
  "concat (map (render (occurrence c)) (segments c s)) = s"
proof (induction c s rule: segments.induct)
  case (1 c s)
  show ?case
  proof (cases "s = []")
    case True
    then show ?thesis by (subst segments.simps) simp
  next
    case ne: False
    show ?thesis
    proof (cases "occurrence_at c s")
      case None
      with ne "1.IH"(1) [OF ne None] show ?thesis
        by (subst segments.simps) simp
    next
      case (Some pq)
      obtain p q where pq: "pq = (p, q)" by (cases pq)
      from occurrence_at_prefix Some pq
      have "s = occurrence c p q @ drop (length (occurrence c p q)) s" by blast
      with ne Some pq "1.IH"(2) [OF ne Some pq [symmetric]] show ?thesis
        by (subst segments.simps) simp
    qed
  qed
qed

lemma mentions_occurrence:
  "d \<noteq> c \<Longrightarrow> d \<noteq> 40 \<Longrightarrow> d \<noteq> 41 \<Longrightarrow> d \<noteq> c_sp \<Longrightarrow>
     d \<in> set (render (occurrence c) g) \<longleftrightarrow> mentions d g"
  by (cases g) (auto simp: occurrence_def asc_def)

lemma mentions_disjunction_text:
  "d = c_imp \<or> d = c_iff \<Longrightarrow> d \<in> set (render disjunction_text g) \<longleftrightarrow> mentions d g"
  by (cases g) (auto simp: disjunction_text_def asc_def)

lemma mentions_conjunction_text:
  "d = c_imp \<or> d = c_iff \<Longrightarrow> d \<in> set (render conjunction_text g) \<longleftrightarrow> mentions d g"
  by (cases g) (auto simp: conjunction_text_def disjunction_text_def asc_def)

lemma rewrite_each_mentions:
  assumes "\<And>g. d \<in> set (render f g) \<longleftrightarrow> mentions d g"
  shows "d \<in> set (rewrite_each c f s) \<longleftrightarrow> list_ex (mentions d) (segments c s)"
  using assms by (auto simp: rewrite_each_def list_ex_iff)

lemma implication_sign_kept:
  "c_imp \<in> set (rewrite_each c_iff conjunction_text t) \<longleftrightarrow> c_imp \<in> set t"
proof -
  have "c_imp \<in> set (rewrite_each c_iff conjunction_text t)
          \<longleftrightarrow> list_ex (mentions c_imp) (segments c_iff t)"
    by (rule rewrite_each_mentions) (simp add: mentions_conjunction_text)
  also have "\<dots> \<longleftrightarrow> c_imp \<in> set (rewrite_each c_iff (occurrence c_iff) t)"
    by (rule rewrite_each_mentions [symmetric]) (simp add: mentions_occurrence)
  also have "rewrite_each c_iff (occurrence c_iff) t = t"
    by (simp add: rewrite_each_def segments_occurrences)
  finally show ?thesis .
qed

text \<open>
  C6 (eliminating implications and biconditionals), as the code has it: the operands of the
  two patterns are \<open>(.?)\<close>, at most one character each. On every input the stage replaces
  each occurrence \<open>(p \<Rightarrow> q)\<close> with such operands by \<open>(\<not>p \<or> q)\<close>, wherever it stands, and
  keeps every other character; in the result it replaces each occurrence \<open>(p \<Leftrightarrow> q)\<close> by
  \<open>(\<not>p \<or> q) \<and> (\<not>q \<or> p)\<close>. The output contains an implication sign exactly when one
  is left outside the occurrences of the first reading or is an operand of one, and a
  biconditional sign exactly when one is left so in the second reading.
\<close>

theorem eliminate_implication_rewrites_occurrences:
  "eliminate_implication s
     = rewrite_each c_iff conjunction_text (rewrite_each c_imp disjunction_text s)
   \<and> (c_imp \<in> set (eliminate_implication s)
        \<longleftrightarrow> list_ex (mentions c_imp) (segments c_imp s))
   \<and> (c_iff \<in> set (eliminate_implication s)
        \<longleftrightarrow> list_ex (mentions c_iff) (segments c_iff (rewrite_each c_imp disjunction_text s)))"
proof -
  have 1: "c_imp \<in> set (rewrite_each c_imp disjunction_text s)
             \<longleftrightarrow> list_ex (mentions c_imp) (segments c_imp s)"
    by (rule rewrite_each_mentions) (simp add: mentions_disjunction_text)
  have 2: "c_iff \<in> set (rewrite_each c_iff conjunction_text (rewrite_each c_imp disjunction_text s))
             \<longleftrightarrow> list_ex (mentions c_iff) (segments c_iff (rewrite_each c_imp disjunction_text s))"
    by (rule rewrite_each_mentions) (simp add: mentions_conjunction_text)
  show ?thesis
    unfolding eliminate_implication_rewrite using 1 2 by (simp add: implication_sign_kept)
qed

theorem eliminate_implication_rewrites_occurrences_witness:
  "eliminate_implication
     (asc ''x(p '' @ [c_imp] @ asc '' q) '' @ [c_and] @ asc '' (r '' @ [c_iff] @ asc '' s)'')
     = asc ''x('' @ [c_not] @ asc ''p '' @ [c_or] @ asc '' q) '' @ [c_and] @ asc '' (''
         @ [c_not] @ asc ''r '' @ [c_or] @ asc '' s) '' @ [c_and] @ asc '' ('' @ [c_not]
         @ asc ''s '' @ [c_or] @ asc '' r)''
   \<and> rewrite_each c_iff conjunction_text (rewrite_each c_imp disjunction_text
       (asc ''x(p '' @ [c_imp] @ asc '' q) '' @ [c_and] @ asc '' (r '' @ [c_iff] @ asc '' s)''))
     = asc ''x('' @ [c_not] @ asc ''p '' @ [c_or] @ asc '' q) '' @ [c_and] @ asc '' (''
         @ [c_not] @ asc ''r '' @ [c_or] @ asc '' s) '' @ [c_and] @ asc '' ('' @ [c_not]
         @ asc ''s '' @ [c_or] @ asc '' r)''
   \<and> \<not> list_ex (mentions c_imp) (segments c_imp
       (asc ''x(p '' @ [c_imp] @ asc '' q) '' @ [c_and] @ asc '' (r '' @ [c_iff] @ asc '' s)''))"
proof -
  define s where
    "s = asc ''x(p '' @ [c_imp] @ asc '' q) '' @ [c_and] @ asc '' (r '' @ [c_iff] @ asc '' s)''"
  define t where
    "t = asc ''x('' @ [c_not] @ asc ''p '' @ [c_or] @ asc '' q) '' @ [c_and] @ asc '' (''
         @ [c_not] @ asc ''r '' @ [c_or] @ asc '' s) '' @ [c_and] @ asc '' ('' @ [c_not]
         @ asc ''s '' @ [c_or] @ asc '' r)''"
  have ev: "eliminate_implication s = t"
    unfolding s_def t_def by (simp add: stage_eval re_eval)
  have no: "c_imp \<notin> set t"
    unfolding t_def by (simp add: asc_def)
  from eliminate_implication_rewrites_occurrences [of s] ev no
  have "eliminate_implication s = t
      \<and> rewrite_each c_iff conjunction_text (rewrite_each c_imp disjunction_text s) = t
      \<and> \<not> list_ex (mentions c_imp) (segments c_imp s)"
    by simp
  then show ?thesis unfolding s_def t_def .
qed

text \<open>
  The claim as stated fails on operands that are longer: \<open>(P(x) \<Rightarrow> Q(x))\<close> is returned
  unchanged, implication sign included.
\<close>

theorem eliminate_implication_keeps_compound:
  "eliminate_implication (asc ''(P(x) '' @ [c_imp] @ asc '' Q(x))'')
     = asc ''(P(x) '' @ [c_imp] @ asc '' Q(x))''
   \<and> c_imp \<in> set (eliminate_implication (asc ''(P(x) '' @ [c_imp] @ asc '' Q(x))''))"
  by (simp add: stage_eval re_eval)

section \<open>Moving negation inward\<close>

lemma re_scan_no_match:
  assumes "\<And>adv prev k. rmatch its adv prev (drop k s) [] = None"
  shows "re_scan its f g must_advance prev s = concat (map g s)"
  using assms
proof (induction s arbitrary: must_advance prev)
  case Nil
  from Nil [of _ _ 0] show ?case by (subst re_scan.simps) simp
next
  case (Cons c cs)
  from Cons.prems [of _ _ 0] have here: "\<And>adv prev. rmatch its adv prev (c # cs) [] = None" by simp
  have later: "\<And>adv prev k. rmatch its adv prev (drop k cs) [] = None"
    using Cons.prems [of _ _ "Suc k" for k] by simp
  show ?case
    by (subst re_scan.simps) (simp add: here Cons.IH [OF later])
qed

lemma has_pair_drop: "\<not> has_pair a b s \<Longrightarrow> \<not> has_pair a b (drop k s)"
proof (induction k arbitrary: s)
  case 0
  then show ?case by simp
next
  case (Suc k)
  show ?case
  proof (cases s)
    case Nil
    then show ?thesis by simp
  next
    case (Cons x xs)
    with Suc.prems have "\<not> has_pair a b xs" by (cases xs) auto
    with Suc.IH Cons show ?thesis by simp
  qed
qed

lemma rmatch_pair_none:
  "\<not> has_pair a b s \<Longrightarrow> rmatch (Ch a # Ch b # r) adv prev s gs = None"
  by (cases s; cases "tl s") auto

lemma re_sub_no_pair:
  assumes "\<not> has_pair a b s"
  shows "re_sub (Ch a # Ch b # r) tmpl s = s"
proof -
  have "\<And>adv prev k. rmatch (Ch a # Ch b # r) adv prev (drop k s) [] = None"
    using assms by (intro rmatch_pair_none has_pair_drop)
  then show ?thesis unfolding re_sub_def by (simp add: re_scan_no_match)
qed





section \<open>Standardizing variable names\<close>

text \<open>
  A substitution that replaces every match by the matched text returns its input.
\<close>

lemma re_scan_same:
  assumes same: "\<And>adv prev t gs rest. rmatch its adv prev t [] = Some (gs, rest) \<Longrightarrow>
             f (take (length t - length rest) t # gs) = take (length t - length rest) t"
      and g: "g = (\<lambda>c. [c])"
  shows "re_scan its f g must_advance prev s = s"
  using same g
proof (induction its f g must_advance prev s rule: re_scan.induct)
  case (1 its on_match on_char must_advance prev s)
  note same' = "1.prems"(1) and g' = "1.prems"(2)
  show ?case
  proof (cases "rmatch its (if must_advance then Some (length s) else None) prev s []")
    case None
    show ?thesis
    proof (cases s)
      case Nil
      with None show ?thesis by (subst re_scan.simps) simp
    next
      case (Cons c cs)
      have "re_scan its on_match on_char False (Some c) cs = cs"
        using "1.IH"(1) [OF None Cons] same' g' by blast
      with None Cons g' show ?thesis
        by (subst re_scan.simps) simp
    qed
  next
    case (Some res)
    obtain gs rest where res: "res = (gs, rest)" by (cases res)
    define whole where "whole = take (length s - length rest) s"
    from Some res rmatch_rest(1) obtain m where m: "s = m @ rest" by blast
    then have wm: "whole = m" by (simp add: whole_def)
    have rep: "on_match (whole # gs) = whole"
      unfolding whole_def using same' Some res by blast
    show ?thesis
    proof (cases "whole = []")
      case True
      have "re_scan its on_match on_char True prev s = s"
        using "1.IH"(2) [OF Some res [symmetric] whole_def True] same' g' by blast
      with Some res True rep whole_def show ?thesis
        by (subst re_scan.simps) (simp add: Let_def)
    next
      case False
      have "re_scan its on_match on_char False (Some (last whole)) rest = rest"
        using "1.IH"(3) [OF Some res [symmetric] whole_def False] same' g' by blast
      with Some res False rep whole_def m wm show ?thesis
        by (subst re_scan.simps) (simp add: Let_def)
    qed
  qed
qed

lemma rmatch_literal:
  "rmatch (map Ch v @ r) adv prev s gs = Some res \<Longrightarrow>
     \<exists>t prev'. s = v @ t \<and> rmatch r adv prev' t gs = Some res"
proof (induction v arbitrary: prev s)
  case Nil
  then show ?case by auto
next
  case (Cons c v)
  then show ?case by (cases s) (auto split: if_splits)
qed

lemma rmatch_word:
  assumes "rmatch ([Wb tbl] @ escape v @ [Wb tbl]) adv prev s [] = Some (gs, rest)"
  shows "s = v @ rest"
proof -
  from assms have "rmatch (map Ch v @ [Wb tbl]) adv prev s [] = Some (gs, rest)"
    by (simp add: escape_def split: if_splits)
  from rmatch_literal [OF this] obtain t prev' where
    t: "s = v @ t" and w: "rmatch [Wb tbl] adv prev' t [] = Some (gs, rest)" by blast
  from w have "rest = t" by (simp split: if_splits)
  with t show ?thesis by simp
qed

lemma re_sub_word_same:
  "re_sub (Wb tbl # escape v @ [Wb tbl]) [Lit v] s = s"
  unfolding re_sub_def
proof (rule re_scan_same)
  fix adv prev t gs rest
  assume "rmatch (Wb tbl # escape v @ [Wb tbl]) adv prev t [] = Some (gs, rest)"
  then have "t = v @ rest" using rmatch_word [of tbl v adv prev t gs rest] by simp
  then show "expand [Lit v] (take (length t - length rest) t # gs) = take (length t - length rest) t"
    by simp
qed simp

lemma replace_variables_same:
  assumes "\<forall>x \<in> set m. snd x = fst x"
  shows "replace_variables tbl m s = (if list_ex (\<lambda>x. c_bs \<in> set (fst x)) m then Inl ReError else Inr s)"
  using assms
proof (induction m)
  case Nil
  then show ?case by simp
next
  case (Cons x m)
  obtain var replacement where x: "x = (var, replacement)" by (cases x)
  with Cons.prems have r: "replacement = var" by simp
  from Cons have IH: "replace_variables tbl m s
      = (if list_ex (\<lambda>x. c_bs \<in> set (fst x)) m then Inl ReError else Inr s)" by simp
  show ?case using IH by (simp add: x r template_of_def re_sub_word_same)
qed

lemma variable_map_of_same:
  "\<forall>x \<in> set m. snd x = fst x \<Longrightarrow> \<forall>x \<in> set (variable_map_of qs m). snd x = fst x"
proof (induction qs arbitrary: m)
  case Nil
  then show ?case by simp
next
  case (Cons q qs)
  have ext: "\<forall>x \<in> set (m @ [(q ! 1, q ! 1)]). snd x = fst x"
    using Cons.prems by auto
  show ?case
    using Cons.IH [OF ext] Cons.IH [OF Cons.prems] by (simp add: Let_def)
qed

lemma variable_map_of_backslash:
  "list_ex (\<lambda>x. c_bs \<in> set (fst x)) (variable_map_of qs m)
     \<longleftrightarrow> list_ex (\<lambda>x. c_bs \<in> set (fst x)) m \<or> list_ex (\<lambda>q. c_bs \<in> set (q ! 1)) qs"
proof (induction qs arbitrary: m)
  case Nil
  then show ?case by simp
next
  case (Cons q qs)
  show ?case
  proof (cases "q ! 1 \<in> fst ` set m")
    case True
    then obtain b where "(q ! 1, b) \<in> set m" by auto
    then have "c_bs \<in> set (q ! 1) \<Longrightarrow> list_ex (\<lambda>x. c_bs \<in> set (fst x)) m"
      by (force simp: list_ex_iff)
    then show ?thesis using True Cons [of m] by (auto simp: Let_def)
  next
    case False
    then show ?thesis using Cons [of "m @ [(q ! 1, q ! 1)]"] by (auto simp: Let_def)
  qed
qed

lemma standardize_variable_scope_cases:
  "standardize_variable_scope tbl s = (if captures_backslash tbl s then Inl ReError else Inr s)"
proof -
  have "\<forall>x \<in> set (variable_map_of (re_findall [G_quant, G_opt, Ws, G_opt, Wb tbl] s) []). snd x = fst x"
    by (rule variable_map_of_same) simp
  then show ?thesis
    by (simp add: standardize_variable_scope_def replace_variables_same variable_map_of_backslash
        captures_backslash_def)
qed

text \<open>
  C10 (the stage is the identity), as the code has it: the variable map sends every captured
  variable to itself, so each substitution replaces a match by the matched text and the
  formula comes back unchanged. The replacement is read as a template, and a captured
  variable that is a backslash is a bad escape: then \<open>re.sub\<close> raises. The stage returns its
  input on every other string.
\<close>

theorem standardize_variable_scope_returns_input:
  "standardize_variable_scope tbl s = (if captures_backslash tbl s then Inl ReError else Inr s)"
  by (rule standardize_variable_scope_cases)

theorem standardize_variable_scope_returns_input_witness:
  "\<not> captures_backslash symbols_only ([c_all] @ asc ''x '' @ [c_ex] @ asc ''y P(x)'')
   \<and> standardize_variable_scope symbols_only ([c_all] @ asc ''x '' @ [c_ex] @ asc ''y P(x)'')
     = Inr ([c_all] @ asc ''x '' @ [c_ex] @ asc ''y P(x)'')"
proof -
  have n: "\<not> captures_backslash symbols_only ([c_all] @ asc ''x '' @ [c_ex] @ asc ''y P(x)'')"
    by (simp add: captures_backslash_def re_eval)
  show ?thesis
    using n standardize_variable_scope_returns_input
      [of symbols_only "[c_all] @ asc ''x '' @ [c_ex] @ asc ''y P(x)''"] by simp
qed

text \<open>
  The claim as stated fails on the four characters \<open>\<forall>\<close>, backslash, blank, \<open>x\<close>: the call raises.
\<close>

theorem standardize_variable_scope_raises_on_backslash:
  "standardize_variable_scope symbols_only ([c_all, c_bs] @ asc '' x'') = Inl ReError"
  by (simp add: stage_eval re_eval)

section \<open>The verdicts of the resolution procedure\<close>








section \<open>The two orders of the stages\<close>

lemma rmatch_first_char:
  "c \<notin> set s \<Longrightarrow> rmatch (Ch c # r) adv prev (drop k s) gs = None"
proof (cases "drop k s")
  case Nil
  then show ?thesis by simp
next
  case (Cons x xs)
  assume "c \<notin> set s"
  moreover have "x \<in> set (drop k s)" using Cons by simp
  then have "x \<in> set s" by (rule in_set_dropD)
  ultimately show ?thesis using Cons by auto
qed

lemma rmatch_first_quant:
  "quantifier_free s \<Longrightarrow> rmatch (G_quant # r) adv prev (drop k s) gs = None"
proof (cases "drop k s")
  case Nil
  then show ?thesis by simp
next
  case (Cons x xs)
  assume "quantifier_free s"
  moreover have "x \<in> set (drop k s)" using Cons by simp
  then have "x \<in> set s" by (rule in_set_dropD)
  ultimately show ?thesis using Cons by (auto simp: quantifier_free_def)
qed

lemma re_findall_no_quant: "quantifier_free s \<Longrightarrow> re_findall (G_quant # r) s = []"
  unfolding re_findall_def by (subst re_scan_no_match) (simp_all add: rmatch_first_quant)

lemma re_findall_no_char: "c \<notin> set s \<Longrightarrow> re_findall (Ch c # r) s = []"
  unfolding re_findall_def by (subst re_scan_no_match) (simp_all add: rmatch_first_char)

lemma re_sub_no_char: "c \<notin> set s \<Longrightarrow> re_sub (Ch c # r) tmpl s = s"
  unfolding re_sub_def by (subst re_scan_no_match) (simp_all add: rmatch_first_char)

lemma standardize_quantifier_free:
  "quantifier_free s \<Longrightarrow> standardize_variable_scope tbl s = Inr s"
  by (simp add: standardize_variable_scope_def re_findall_no_quant)

lemma skolemization_quantifier_free:
  "quantifier_free s \<Longrightarrow> skolemization tbl s = Inr s"
  by (simp add: skolemization_def re_findall_no_char quantifier_free_def)

lemma move_quantifiers_left_quantifier_free:
  "quantifier_free s \<Longrightarrow> move_quantifiers_left s = asc '' '' @ s"
  by (simp add: move_quantifiers_left_def re_findall_no_quant)

lemma eliminate_universal_quantifier_free:
  "quantifier_free s \<Longrightarrow> eliminate_universal_quantifiers s = s"
  by (simp add: eliminate_universal_quantifiers_def re_sub_no_char quantifier_free_def)

lemma quantifier_free_space: "quantifier_free s \<Longrightarrow> quantifier_free (asc '' '' @ s)"
  by (simp add: quantifier_free_def asc_def)

text \<open>
  The characters of a substitution's result come from its input and from the literal text of
  the template: the groups of a match are parts of the input.
\<close>

lemma rmatch_groups:
  "rmatch its adv prev s gs = Some (gs', rest) \<Longrightarrow> set s \<subseteq> A \<Longrightarrow> (\<forall>g \<in> set gs. set g \<subseteq> A) \<Longrightarrow>
     (\<forall>g \<in> set gs'. set g \<subseteq> A) \<and> length gs' = length gs + ngroups its"
  "rlazy its adv prev s gs acc = Some (gs', rest) \<Longrightarrow> set s \<subseteq> A \<Longrightarrow> (\<forall>g \<in> set gs. set g \<subseteq> A) \<Longrightarrow>
     set acc \<subseteq> A \<Longrightarrow>
     (\<forall>g \<in> set gs'. set g \<subseteq> A) \<and> length gs' = Suc (length gs + ngroups its)"
proof (induction its adv prev s gs and its adv prev s gs acc
       arbitrary: gs' rest and gs' rest rule: rmatch_rlazy.induct)
  case (3 c r adv prev x xs gs)
  then show ?case by (auto split: if_splits)
next
  case (5 r adv prev x xs gs)
  then show ?case by (auto split: if_splits)
next
  case (7 r adv prev x xs gs)
  from "7.prems" have m: "x = c_all \<or> x = c_ex"
    and r: "rmatch r adv (Some x) xs (gs @ [[x]]) = Some (gs', rest)"
    by (auto split: if_splits)
  from "7.prems" have p: "set xs \<subseteq> A" "\<forall>g \<in> set (gs @ [[x]]). set g \<subseteq> A" by auto
  from "7.IH" [OF m r p] show ?case by simp
next
  case (8 r adv prev gs)
  from "8.prems" have r: "rmatch r adv prev [] (gs @ [[]]) = Some (gs', rest)" by simp
  from "8.prems" have p: "set [] \<subseteq> A" "\<forall>g \<in> set (gs @ [[]]). set g \<subseteq> A" by auto
  from "8.IH" [OF r p] show ?case by simp
next
  case (9 r adv prev x xs gs)
  from "9.prems" have pe: "set (x # xs) \<subseteq> A" "\<forall>g \<in> set (gs @ [[]]). set g \<subseteq> A"
    and px: "set xs \<subseteq> A" "\<forall>g \<in> set (gs @ [[x]]). set g \<subseteq> A" by auto
  show ?case
  proof (cases "x = c_nl")
    case True
    with "9.prems" have "rmatch r adv prev (x # xs) (gs @ [[]]) = Some (gs', rest)" by simp
    from "9.IH"(1) [OF True this pe] show ?thesis by simp
  next
    case False
    show ?thesis
    proof (cases "rmatch r adv (Some x) xs (gs @ [[x]])")
      case None
      with False "9.prems" have "rmatch r adv prev (x # xs) (gs @ [[]]) = Some (gs', rest)" by simp
      from "9.IH"(3) [OF False None this pe] show ?thesis by simp
    next
      case (Some res)
      with False "9.prems" have "rmatch r adv (Some x) xs (gs @ [[x]]) = Some (gs', rest)" by simp
      from "9.IH"(2) [OF False this px] show ?thesis by simp
    qed
  qed
next
  case (10 r adv prev s gs)
  from "10.prems" have "rlazy r adv prev s gs [] = Some (gs', rest)" by simp
  from "10.IH" [OF this "10.prems"(2,3)] show ?case by simp
next
  case (11 tbl r adv prev s gs)
  then show ?case by (auto split: if_splits)
next
  case (12 r adv prev s gs)
  then show ?case by (auto split: if_splits)
next
  case (13 r adv prev gs acc)
  from "13.prems" have r: "rmatch r adv prev [] (gs @ [acc]) = Some (gs', rest)" by simp
  from "13.prems" have p: "set [] \<subseteq> A" "\<forall>g \<in> set (gs @ [acc]). set g \<subseteq> A" by auto
  from "13.IH" [OF r p] show ?case by simp
next
  case (14 r adv prev x xs gs acc)
  from "14.prems" have pe: "set (x # xs) \<subseteq> A" "\<forall>g \<in> set (gs @ [acc]). set g \<subseteq> A"
    and px: "set xs \<subseteq> A" "\<forall>g \<in> set gs. set g \<subseteq> A" "set (acc @ [x]) \<subseteq> A" by auto
  show ?case
  proof (cases "rmatch r adv prev (x # xs) (gs @ [acc])")
    case None
    with "14.prems" have nl: "x \<noteq> c_nl"
      and "rlazy r adv (Some x) xs gs (acc @ [x]) = Some (gs', rest)"
      by (auto split: if_splits)
    from "14.IH"(2) [OF None nl this(2) px] show ?thesis by simp
  next
    case (Some res)
    with "14.prems" have "rmatch r adv prev (x # xs) (gs @ [acc]) = Some (gs', rest)" by simp
    from "14.IH"(1) [OF this pe] show ?thesis by simp
  qed
qed (auto split: if_splits)

lemma expand_within:
  "list_all (piece_within A n) tmpl \<Longrightarrow> n < length gs \<Longrightarrow> (\<forall>g \<in> set gs. set g \<subseteq> A) \<Longrightarrow>
     set (expand tmpl gs) \<subseteq> A"
proof (induction tmpl gs rule: expand.induct)
  case (1 gs)
  then show ?case by simp
next
  case (2 t ps gs)
  then show ?case by simp
next
  case (3 k ps gs)
  then have "k < length gs" by simp
  then have "gs ! k \<in> set gs" by simp
  with 3 show ?case by auto
qed

lemma re_scan_within:
  assumes within: "\<And>adv prev t gs rest. set t \<subseteq> A \<Longrightarrow> rmatch its adv prev t [] = Some (gs, rest) \<Longrightarrow>
             set (f (take (length t - length rest) t # gs)) \<subseteq> A"
      and g: "g = (\<lambda>c. [c])"
      and s: "set s \<subseteq> A"
  shows "set (re_scan its f g must_advance prev s) \<subseteq> A"
  using within g s
proof (induction its f g must_advance prev s rule: re_scan.induct)
  case (1 its on_match on_char must_advance prev s)
  note within' = "1.prems"(1) and g' = "1.prems"(2) and s' = "1.prems"(3)
  show ?case
  proof (cases "rmatch its (if must_advance then Some (length s) else None) prev s []")
    case None
    show ?thesis
    proof (cases s)
      case Nil
      with None show ?thesis by (subst re_scan.simps) simp
    next
      case (Cons c cs)
      have "set cs \<subseteq> A" using s' Cons by simp
      then have "set (re_scan its on_match on_char False (Some c) cs) \<subseteq> A"
        using "1.IH"(1) [OF None Cons] within' g' by blast
      with None Cons g' s' show ?thesis
        by (subst re_scan.simps) simp
    qed
  next
    case (Some res)
    obtain gs rest where res: "res = (gs, rest)" by (cases res)
    define whole where "whole = take (length s - length rest) s"
    from Some res rmatch_rest(1) obtain m where m: "s = m @ rest" by blast
    then have r: "set rest \<subseteq> A" using s' by auto
    have rep: "set (on_match (whole # gs)) \<subseteq> A"
      unfolding whole_def using within' [OF s'] Some res by blast
    show ?thesis
    proof (cases "whole = []")
      case True
      have "set (re_scan its on_match on_char True prev s) \<subseteq> A"
        using "1.IH"(2) [OF Some res [symmetric] whole_def True] within' g' s' by blast
      with Some res True rep whole_def show ?thesis
        by (subst re_scan.simps) (simp add: Let_def)
    next
      case False
      have "set (re_scan its on_match on_char False (Some (last whole)) rest) \<subseteq> A"
        using "1.IH"(3) [OF Some res [symmetric] whole_def False] within' g' r by blast
      with Some res False rep whole_def show ?thesis
        by (subst re_scan.simps) (simp add: Let_def)
    qed
  qed
qed

lemma re_sub_within:
  assumes "list_all (piece_within A (ngroups its)) tmpl" and "set s \<subseteq> A"
  shows "set (re_sub its tmpl s) \<subseteq> A"
  unfolding re_sub_def
proof (rule re_scan_within)
  fix adv prev t gs rest
  assume t: "set t \<subseteq> A" and m: "rmatch its adv prev t [] = Some (gs, rest)"
  from rmatch_groups(1) [OF m t] have gs: "\<forall>g \<in> set gs. set g \<subseteq> A" "length gs = ngroups its"
    by auto
  have "set (take (length t - length rest) t) \<subseteq> A" using t by (meson set_take_subset subset_trans)
  with gs have "\<forall>g \<in> set (take (length t - length rest) t # gs). set g \<subseteq> A" by simp
  moreover have "ngroups its < length (take (length t - length rest) t # gs)" using gs by simp
  ultimately show "set (expand tmpl (take (length t - length rest) t # gs)) \<subseteq> A"
    using assms(1) by (intro expand_within)
qed (simp_all add: assms)

lemma quantifier_free_within: "quantifier_free s \<longleftrightarrow> set s \<subseteq> - {c_all, c_ex}"
  by (auto simp: quantifier_free_def)

lemma has_pair_second: "has_pair a b s \<Longrightarrow> b \<in> set s"
  by (induction a b s rule: has_pair.induct) auto

lemma eliminate_implication_quantifier_free:
  assumes "quantifier_free s"
  shows "quantifier_free (eliminate_implication s)"
proof -
  let ?A = "- {c_all, c_ex} :: nat set"
  from assms have 0: "set s \<subseteq> ?A" by (simp add: quantifier_free_within)
  have 1: "set (re_sub (lits ''('' @ [G_opt] @ lits '' '' @ [Ch c_imp] @ lits '' '' @ [G_opt] @ lits '')'')
                      [Lit (asc ''('' @ [c_not]), Ref 1, Lit (asc '' '' @ [c_or] @ asc '' ''), Ref 2,
                       Lit (asc '')'')] s) \<subseteq> ?A"
    by (rule re_sub_within [OF _ 0]) (simp add: lits_def asc_def)
  have 2: "set (re_sub (lits ''('' @ [G_opt] @ lits '' '' @ [Ch c_iff] @ lits '' '' @ [G_opt] @ lits '')'')
                      [Lit (asc ''('' @ [c_not]), Ref 1, Lit (asc '' '' @ [c_or] @ asc '' ''), Ref 2,
                       Lit (asc '') '' @ [c_and] @ asc '' ('' @ [c_not]), Ref 2,
                       Lit (asc '' '' @ [c_or] @ asc '' ''), Ref 1, Lit (asc '')'')]
              (re_sub (lits ''('' @ [G_opt] @ lits '' '' @ [Ch c_imp] @ lits '' '' @ [G_opt] @ lits '')'')
                      [Lit (asc ''('' @ [c_not]), Ref 1, Lit (asc '' '' @ [c_or] @ asc '' ''), Ref 2,
                       Lit (asc '')'')] s)) \<subseteq> ?A"
    by (rule re_sub_within [OF _ 1]) (simp add: lits_def asc_def)
  show ?thesis
    unfolding quantifier_free_within eliminate_implication_def Let_def by (rule 2)
qed

lemma move_negation_inward_quantifier_free:
  assumes "quantifier_free s"
  shows "quantifier_free (move_negation_inward s)"
proof -
  let ?A = "- {c_all, c_ex} :: nat set"
  define s1 where "s1 = re_sub ([Ch c_not] @ lits ''('' @ [G_opt] @ lits '' '' @ [Ch c_and] @ lits '' '' @ [G_opt] @ lits '')'')
                      [Lit (asc ''('' @ [c_not]), Ref 1, Lit (asc '' '' @ [c_or] @ asc '' '' @ [c_not]), Ref 2,
                       Lit (asc '')'')] s"
  define s2 where "s2 = re_sub ([Ch c_not] @ lits ''('' @ [G_opt] @ lits '' '' @ [Ch c_or] @ lits '' '' @ [G_opt] @ lits '')'')
                      [Lit (asc ''('' @ [c_not]), Ref 1, Lit (asc '' '' @ [c_and] @ asc '' '' @ [c_not]), Ref 2,
                       Lit (asc '')'')] s1"
  define s3 where "s3 = re_sub ([Ch c_not, Ch c_all, G_opt] @ lits '' '' @ [G_opt])
                      [Lit [c_ex], Ref 1, Lit (asc '' '' @ [c_not]), Ref 2] s2"
  define s4 where "s4 = re_sub ([Ch c_not, Ch c_ex, G_opt] @ lits '' '' @ [G_opt])
                      [Lit [c_all], Ref 1, Lit (asc '' '' @ [c_not]), Ref 2] s3"
  define s5 where "s5 = re_sub [Ch c_not, Ch c_not, G_lazy] [Ref 1] s4"
  from assms have 0: "set s \<subseteq> ?A" by (simp add: quantifier_free_within)
  have 1: "set s1 \<subseteq> ?A"
    unfolding s1_def by (rule re_sub_within [OF _ 0]) (simp add: lits_def asc_def)
  have 2: "set s2 \<subseteq> ?A"
    unfolding s2_def by (rule re_sub_within [OF _ 1]) (simp add: lits_def asc_def)
  have "\<not> has_pair c_not c_all s2" using 2 has_pair_second [of c_not c_all s2] by auto
  then have 3: "s3 = s2" unfolding s3_def by (simp add: re_sub_no_pair)
  have "\<not> has_pair c_not c_ex s3" using 2 3 has_pair_second [of c_not c_ex s3] by auto
  then have 4: "s4 = s2" unfolding s4_def using 3 by (simp add: re_sub_no_pair)
  have 5: "set s5 \<subseteq> ?A"
    unfolding s5_def 4 by (rule re_sub_within [OF _ 2]) simp
  have "move_negation_inward s = s5"
    by (simp add: move_negation_inward_def Let_def s1_def s2_def s3_def s4_def s5_def)
  with 5 show ?thesis by (simp add: quantifier_free_within)
qed

text \<open>On a proposition without any quantifier sign both call sites return, and agree.\<close>

corollary call_sites_agree_without_quantifiers:
  assumes "quantifier_free prop"
  shows "cnf_in_resolution tbl prop = cnf_in_print tbl prop
         \<and> cnf_in_print tbl prop
             = Inr (convert_to_cnf (asc '' '' @ move_negation_inward (eliminate_implication prop)))"
proof -
  define p where "p = move_negation_inward (eliminate_implication prop)"
  have p: "quantifier_free p"
    unfolding p_def
    by (intro move_negation_inward_quantifier_free eliminate_implication_quantifier_free assms)
  then have sp: "quantifier_free (asc '' '' @ p)" by (rule quantifier_free_space)
  have a: "cnf_in_resolution tbl prop = Inr (convert_to_cnf (asc '' '' @ p))"
    using p sp
    by (simp add: cnf_in_resolution_def p_def [symmetric] standardize_quantifier_free
        skolemization_quantifier_free move_quantifiers_left_quantifier_free
        eliminate_universal_quantifier_free)
  have b: "cnf_in_print tbl prop = Inr (convert_to_cnf (asc '' '' @ p))"
    using p sp
    by (simp add: cnf_in_print_def p_def [symmetric] standardize_quantifier_free
        skolemization_quantifier_free move_quantifiers_left_quantifier_free
        eliminate_universal_quantifier_free)
  show ?thesis using a b by (simp add: p_def)
qed











end
